theory Spec2Isabelle
  imports Main "HOL-Library.Word"
begin

unbundle bit_operations_syntax

section \<open>Data model of hashmap.h\<close>

text \<open>
  The target is an LP64 platform: \<open>size_t\<close>, \<open>uint64_t\<close> and pointers are 64 bits wide and
  \<open>sizeof(Entry *)\<close> is 8. A \<open>void *\<close> value is the 64-bit address it holds; the null
  pointer is the address 0.
\<close>

type_synonym voidp = "64 word"

abbreviation (input) NULL :: voidp where
  "NULL \<equiv> 0"

text \<open>
  \<open>struct Entry\<close>. The \<open>key\<close> field points to the table's own copy of a C string; the
  model stores the characters before the terminating NUL. The \<open>next\<close> field is the list
  structure: a chain is the list of its nodes from the head on, \<open>[]\<close> is the null chain head.
\<close>

record Entry =
  entry_key :: string
  entry_value :: voidp

text \<open>
  One element of the array \<open>map->entries\<close>. Memory handed out by \<open>realloc\<close> and not yet
  written by the program holds an indeterminate value: \<open>Uninit\<close>. A slot that was written
  holds a chain head.
\<close>

datatype slot = Uninit | Chain "Entry list"

text \<open>
  \<open>struct HashMap\<close>. \<open>entries = None\<close> is the null array pointer; \<open>Some xs\<close> is an
  allocation of \<open>length xs\<close> slots.
\<close>

record HashMap =
  len :: "64 word"
  buckets :: "64 word"
  key :: "8 word list"
  entries :: "slot list option"

text \<open>
  What C leaves undefined is a fault of the model: dereferencing a null pointer, reading a
  slot that was never written, \<open>%\<close> by zero, indexing past the allocation.
\<close>

datatype fault = NullDeref | UninitRead | DivByZero | OutOfBounds

section \<open>hashmap.c\<close>

subsection \<open>hashmap_hash_key\<close>

text \<open>
  \<open>siphash\<close> comes from the external header \<open>siphash/siphash.h\<close>; it is a parameter
  \<open>sip\<close> of the model, mapping the key's characters and the 16-byte secret to the bytes it
  writes to \<open>hash_bytes\<close>. \<open>hash_bytes\<close> starts as eight zero bytes, so a byte that
  \<open>sip\<close> does not write reads as 0.
\<close>

type_synonym siphash = "string \<Rightarrow> 8 word list \<Rightarrow> 8 word list"

definition hash_bytes_at :: "8 word list \<Rightarrow> nat \<Rightarrow> 8 word" where
  "hash_bytes_at out i = (if i < length out then out ! i else 0)"

text \<open>
  The last argument is the value of \<open>*hash\<close> on entry; the result is its value on return.
  With a null map or key the function returns before it writes. The pointer \<open>hash\<close> itself
  is the address of a local variable at each of the three call sites, so it is never null.
\<close>

definition hashmap_hash_key :: "siphash \<Rightarrow> HashMap option \<Rightarrow> string option \<Rightarrow> 64 word \<Rightarrow> 64 word" where
  "hashmap_hash_key sip mp k hash =
     (case mp of
        None \<Rightarrow> hash
      | Some m \<Rightarrow>
          (case k of
             None \<Rightarrow> hash
           | Some s \<Rightarrow>
               fold (\<lambda>i h. h OR push_bit (i * 8) (ucast (hash_bytes_at (sip s (key m)) i)))
                 [0..<8] 0))"

subsection \<open>hashmap_grow\<close>

text \<open>
  \<open>realloc p nbytes\<close>: the new block has room for \<open>nbytes div 8\<close> slots, keeps the old
  block's slots up to the smaller of the two sizes, and the rest is indeterminate. A null
  \<open>p\<close> is an empty old block. Allocation is taken to succeed.
\<close>

definition realloc :: "slot list option \<Rightarrow> 64 word \<Rightarrow> slot list option" where
  "realloc p nbytes =
     (let n = unat nbytes div 8;
          old = (case p of None \<Rightarrow> [] | Some xs \<Rightarrow> xs)
      in Some (take n old @ replicate (n - length old) Uninit))"

text \<open>The loop \<open>for (i = from; i < to; i++) entries[i] = NULL\<close>.\<close>

definition null_slots :: "nat \<Rightarrow> nat \<Rightarrow> slot list \<Rightarrow> slot list" where
  "null_slots from to xs = fold (\<lambda>i ys. ys[i := Chain []]) [from..<to] xs"

text \<open>
  The statements in source order: \<open>map->buckets\<close> is assigned first, then the array is
  reallocated, then the loop runs from the value \<open>map->buckets\<close> has by then.
\<close>

definition hashmap_grow :: "HashMap option \<Rightarrow> 64 word \<Rightarrow> HashMap option" where
  "hashmap_grow mp new_buckets =
     (case mp of
        None \<Rightarrow> None
      | Some m \<Rightarrow>
          if buckets m \<ge> new_buckets then Some m
          else
            let m1 = m\<lparr>buckets := new_buckets\<rparr>;
                m2 = m1\<lparr>entries := realloc (entries m1) (new_buckets * 8)\<rparr>
            in Some (m2\<lparr>entries :=
                 map_option (null_slots (unat (buckets m2)) (unat new_buckets)) (entries m2)\<rparr>))"

subsection \<open>hashmap_grow_if_needed\<close>

definition hashmap_grow_if_needed :: "HashMap option \<Rightarrow> HashMap option" where
  "hashmap_grow_if_needed mp =
     (case mp of
        None \<Rightarrow> None
      | Some m \<Rightarrow>
          if buckets m = 0 then hashmap_grow (Some m) 8
          else if len m * 4 \<ge> buckets m * 3 then hashmap_grow (Some m) (buckets m * 2)
          else Some m)"

subsection \<open>hashmap_new and hashmap_with_buckets\<close>

text \<open>
  \<open>rnd i\<close> is the value of the \<open>i\<close>-th call of \<open>rand()\<close>, a number from 0 to
  \<open>RAND_MAX\<close>. The \<open>calloc\<close> of the table record is taken to succeed.
\<close>

definition hashmap_new :: "(nat \<Rightarrow> nat) \<Rightarrow> HashMap" where
  "hashmap_new rnd =
     \<lparr>len = 0, buckets = 0, key = map (\<lambda>i. of_nat (rnd i mod 256)) [0..<16], entries = None\<rparr>"

text \<open>
  \<open>calloc(buckets, 8)\<close> returns zeroed slots, that is null chain heads; it returns null
  when the byte count does not fit \<open>size_t\<close>, and the loop then writes through the null
  pointer. A request for zero slots is taken to return a non-null block of no slots.
\<close>

definition hashmap_with_buckets :: "(nat \<Rightarrow> nat) \<Rightarrow> 64 word \<Rightarrow> fault + HashMap" where
  "hashmap_with_buckets rnd n =
     (let m = (hashmap_new rnd)\<lparr>buckets := n\<rparr>
      in if unat n * 8 < 2 ^ 64
         then Inr (m\<lparr>entries := Some (null_slots 0 (unat n) (replicate (unat n) (Chain [])))\<rparr>)
         else Inl NullDeref)"

subsection \<open>The chain walks\<close>

text \<open>
  The \<open>while\<close> loop of \<open>hashmap_insert\<close> on one chain: the result is the returned pointer
  and the chain afterwards. \<open>strcmp\<close> and \<open>strdup\<close> dereference the key, so a null key
  faults as soon as either is reached.
\<close>

fun insert_loop :: "Entry list \<Rightarrow> string option \<Rightarrow> voidp \<Rightarrow> fault + (voidp \<times> Entry list)" where
  "insert_loop [] k v =
     (case k of
        None \<Rightarrow> Inl NullDeref
      | Some s \<Rightarrow> Inr (NULL, [\<lparr>entry_key = s, entry_value = v\<rparr>]))"
| "insert_loop (e # es) k v =
     (case k of
        None \<Rightarrow> Inl NullDeref
      | Some s \<Rightarrow>
          if entry_key e = s then Inr (entry_value e, e\<lparr>entry_value := v\<rparr> # es)
          else (case insert_loop es k v of
                  Inl f \<Rightarrow> Inl f
                | Inr (old_value, es') \<Rightarrow> Inr (old_value, e # es')))"

text \<open>The \<open>while\<close> loop of \<open>hashmap_get\<close>.\<close>

fun get_loop :: "Entry list \<Rightarrow> string option \<Rightarrow> fault + voidp" where
  "get_loop [] k = Inr NULL"
| "get_loop (e # es) k =
     (case k of
        None \<Rightarrow> Inl NullDeref
      | Some s \<Rightarrow> if entry_key e = s then Inr (entry_value e) else get_loop es k)"

text \<open>The \<open>while\<close> loop of \<open>hashmap_remove\<close>: the returned pointer and the chain afterwards.\<close>

fun remove_loop :: "Entry list \<Rightarrow> string option \<Rightarrow> fault + (voidp \<times> Entry list)" where
  "remove_loop [] k = Inr (NULL, [])"
| "remove_loop (e # es) k =
     (case k of
        None \<Rightarrow> Inl NullDeref
      | Some s \<Rightarrow>
          if entry_key e = s then Inr (entry_value e, es)
          else (case remove_loop es k of
                  Inl f \<Rightarrow> Inl f
                | Inr (v, es') \<Rightarrow> Inr (v, e # es')))"

subsection \<open>Selecting the bucket\<close>

text \<open>
  \<open>hash % map->buckets\<close> followed by the read of \<open>map->entries[bucket]\<close>, shared by the
  three operations. The hash variable starts at 0.
\<close>

definition bucket_index :: "siphash \<Rightarrow> HashMap \<Rightarrow> string option \<Rightarrow> nat" where
  "bucket_index sip m k = unat (hashmap_hash_key sip (Some m) k 0 mod buckets m)"

definition read_bucket :: "siphash \<Rightarrow> HashMap \<Rightarrow> slot list \<Rightarrow> string option \<Rightarrow> fault + (nat \<times> Entry list)" where
  "read_bucket sip m xs k =
     (if buckets m = 0 then Inl DivByZero
      else
        let bucket = bucket_index sip m k
        in if length xs \<le> bucket then Inl OutOfBounds
           else (case xs ! bucket of
                   Uninit \<Rightarrow> Inl UninitRead
                 | Chain c \<Rightarrow> Inr (bucket, c)))"

subsection \<open>hashmap_insert, hashmap_get, hashmap_remove\<close>

text \<open>
  Each operation returns the pointer it hands back together with the table behind the
  handle after the call (\<open>None\<close> for a null handle). \<open>hashmap_insert\<close> reads
  \<open>map->entries\<close> with no null check on \<open>map\<close>. The node allocation and \<open>strdup\<close>
  are taken to succeed.
\<close>

definition hashmap_insert :: "siphash \<Rightarrow> HashMap option \<Rightarrow> string option \<Rightarrow> voidp \<Rightarrow> fault + (voidp \<times> HashMap option)" where
  "hashmap_insert sip mp k v =
     (case hashmap_grow_if_needed mp of
        None \<Rightarrow> Inl NullDeref
      | Some m \<Rightarrow>
          (case entries m of
             None \<Rightarrow> Inr (NULL, Some m)
           | Some xs \<Rightarrow>
               (case read_bucket sip m xs k of
                  Inl f \<Rightarrow> Inl f
                | Inr (bucket, c) \<Rightarrow>
                    (case insert_loop c k v of
                       Inl f \<Rightarrow> Inl f
                     | Inr (old_value, c') \<Rightarrow>
                         Inr (old_value, Some (m\<lparr>entries := Some (xs[bucket := Chain c'])\<rparr>))))))"

definition hashmap_get :: "siphash \<Rightarrow> HashMap option \<Rightarrow> string option \<Rightarrow> fault + (voidp \<times> HashMap option)" where
  "hashmap_get sip mp k =
     (case mp of
        None \<Rightarrow> Inr (NULL, None)
      | Some m \<Rightarrow>
          (case entries m of
             None \<Rightarrow> Inr (NULL, Some m)
           | Some xs \<Rightarrow>
               (case read_bucket sip m xs k of
                  Inl f \<Rightarrow> Inl f
                | Inr (bucket, c) \<Rightarrow>
                    (case get_loop c k of
                       Inl f \<Rightarrow> Inl f
                     | Inr v \<Rightarrow> Inr (v, Some m)))))"

definition hashmap_remove :: "siphash \<Rightarrow> HashMap option \<Rightarrow> string option \<Rightarrow> fault + (voidp \<times> HashMap option)" where
  "hashmap_remove sip mp k =
     (case mp of
        None \<Rightarrow> Inr (NULL, None)
      | Some m \<Rightarrow>
          (case entries m of
             None \<Rightarrow> Inr (NULL, Some m)
           | Some xs \<Rightarrow>
               (case read_bucket sip m xs k of
                  Inl f \<Rightarrow> Inl f
                | Inr (bucket, c) \<Rightarrow>
                    (case remove_loop c k of
                       Inl f \<Rightarrow> Inl f
                     | Inr (v, c') \<Rightarrow>
                         Inr (v, Some (m\<lparr>entries := Some (xs[bucket := Chain c'])\<rparr>))))))"

subsection \<open>hashmap_len\<close>

text \<open>
  Modelled from the spec: \<open>hashmap_len\<close> is declared in hashmap.h ("Returns the number of
  keys stored in the HashMap") and has no definition in hashmap.c. The spec gives
  \<open>size(Table)\<close> as the current key count, and \<open>count\<close> is the table's counter field,
  \<open>len\<close> in the struct.
\<close>

definition hashmap_len :: "HashMap \<Rightarrow> 64 word" where
  "hashmap_len m = len m"

section \<open>Operation sequences and reachable tables\<close>

datatype op = Insert "string option" voidp | Get "string option" | Remove "string option"

fun exec :: "siphash \<Rightarrow> HashMap option \<Rightarrow> op \<Rightarrow> fault + (voidp \<times> HashMap option)" where
  "exec sip mp (Insert k v) = hashmap_insert sip mp k v"
| "exec sip mp (Get k) = hashmap_get sip mp k"
| "exec sip mp (Remove k) = hashmap_remove sip mp k"

text \<open>
  A run of a sequence of operations stops at the first fault; otherwise it yields the
  returned pointers in order and the final table.
\<close>

fun run :: "siphash \<Rightarrow> HashMap option \<Rightarrow> op list \<Rightarrow> fault + (voidp list \<times> HashMap option)" where
  "run sip mp [] = Inr ([], mp)"
| "run sip mp (x # xs) =
     (case exec sip mp x of
        Inl f \<Rightarrow> Inl f
      | Inr (r, mp') \<Rightarrow>
          (case run sip mp' xs of
             Inl f \<Rightarrow> Inl f
           | Inr (rs, mp'') \<Rightarrow> Inr (r # rs, mp'')))"

text \<open>
  The tables a caller can hold: built by one of the two constructors, then changed only
  through operations that returned.
\<close>

inductive reachable :: "siphash \<Rightarrow> HashMap \<Rightarrow> bool" for sip :: siphash where
  reachable_new: "reachable sip (hashmap_new rnd)"
| reachable_with_buckets: "hashmap_with_buckets rnd n = Inr m \<Longrightarrow> reachable sip m"
| reachable_exec: "reachable sip m \<Longrightarrow> exec sip (Some m) x = Inr (r, Some m') \<Longrightarrow> reachable sip m'"

section \<open>Observations on a table\<close>

text \<open>The keys stored in one chain, in chain order.\<close>

definition chain_keys :: "Entry list \<Rightarrow> string list" where
  "chain_keys c = map entry_key c"

text \<open>The nodes hanging off a slot; a slot that was never written owns none.\<close>

fun slot_chain :: "slot \<Rightarrow> Entry list" where
  "slot_chain Uninit = []"
| "slot_chain (Chain c) = c"

text \<open>All nodes of a table in slot order, the keys they store, and how many there are.\<close>

definition nodes :: "HashMap \<Rightarrow> Entry list" where
  "nodes m = (case entries m of None \<Rightarrow> [] | Some xs \<Rightarrow> concat (map slot_chain xs))"

definition stored_keys :: "HashMap \<Rightarrow> string list" where
  "stored_keys m = chain_keys (nodes m)"

definition node_count :: "HashMap \<Rightarrow> nat" where
  "node_count m = length (nodes m)"

text \<open>
  The node layout of a table: for every slot, whether it was written and, if so, the key
  held by each node of its chain, in order. Two tables with the same layout have the same
  nodes with the same key copies; only values may differ.
\<close>

fun slot_keys :: "slot \<Rightarrow> string list option" where
  "slot_keys Uninit = None"
| "slot_keys (Chain c) = Some (chain_keys c)"

definition key_layout :: "HashMap \<Rightarrow> string list option list option" where
  "key_layout m = map_option (map slot_keys) (entries m)"

text \<open>
  A table on which bucket selection cannot fault: either there is no array (the operations
  return at once), or the bucket count is non-zero, every index below it lies in the array,
  and every slot was written.
\<close>

definition readable :: "HashMap \<Rightarrow> bool" where
  "readable m =
     (case entries m of
        None \<Rightarrow> True
      | Some xs \<Rightarrow> buckets m \<noteq> 0 \<and> unat (buckets m) \<le> length xs \<and> list_all (\<lambda>x. x \<noteq> Uninit) xs)"

text \<open>
  The invariant of reachable tables: the counter is 0, the array has as many slots as
  \<open>buckets\<close> says, and no chain holds a key twice.
\<close>

definition table_inv :: "HashMap \<Rightarrow> bool" where
  "table_inv m =
     (len m = 0 \<and>
      (case entries m of
         None \<Rightarrow> True
       | Some xs \<Rightarrow> length xs = unat (buckets m) \<and> list_all (\<lambda>x. distinct (chain_keys (slot_chain x))) xs))"

section \<open>Example values\<close>

text \<open>
  Concrete inputs for evaluating the model. \<open>sip0\<close> stands in for \<open>siphash\<close> and
  writes no byte, so every key gets the digest 0. \<open>table1\<close> is what
  \<open>hashmap_with_buckets(1)\<close> returns when \<open>rand()\<close> yields 0 throughout, \<open>table8\<close>
  the same with 8 buckets; the other tables are these after the inserts of the demonstration
  program's keys.
\<close>

abbreviation (input) sip0 :: siphash where
  "sip0 \<equiv> (\<lambda>s secret. [])"

abbreviation (input) table1 :: HashMap where
  "table1 \<equiv> (hashmap_new (\<lambda>i. 0))\<lparr>buckets := 1, entries := Some [Chain []]\<rparr>"

abbreviation (input) table1a :: HashMap where
  "table1a \<equiv> table1\<lparr>entries := Some [Chain [\<lparr>entry_key = ''key1'', entry_value = 5\<rparr>]]\<rparr>"

abbreviation (input) table1b :: HashMap where
  "table1b \<equiv> table1\<lparr>entries := Some [Chain [\<lparr>entry_key = ''key1'', entry_value = 6\<rparr>]]\<rparr>"

abbreviation (input) table1c :: HashMap where
  "table1c \<equiv> table1\<lparr>entries := Some [Chain [\<lparr>entry_key = ''key1'', entry_value = 5\<rparr>,
                                             \<lparr>entry_key = ''key2'', entry_value = 6\<rparr>]]\<rparr>"

abbreviation (input) table8 :: HashMap where
  "table8 \<equiv> (hashmap_new (\<lambda>i. 0))\<lparr>buckets := 8, entries := Some (replicate 8 (Chain []))\<rparr>"

abbreviation (input) table8a :: HashMap where
  "table8a \<equiv> table8\<lparr>entries :=
     Some ((replicate 8 (Chain []))[0 := Chain [\<lparr>entry_key = ''key1'', entry_value = 5\<rparr>]])\<rparr>"

section \<open>Growth\<close>

lemma word64_mult3_eq_0: "(b::64 word) * 3 = 0 \<Longrightarrow> b = 0"
proof -
  assume a: "b * 3 = 0"
  have "b * 3 * 0xAAAAAAAAAAAAAAAB = b * (3 * 0xAAAAAAAAAAAAAAAB)"
    by (simp only: mult.assoc)
  also have "(3 * 0xAAAAAAAAAAAAAAAB :: 64 word) = 1"
    by simp
  finally have "b = b * 3 * 0xAAAAAAAAAAAAAAAB"
    by simp
  with a show ?thesis
    by simp
qed

lemma load_check_false: "len m = 0 \<Longrightarrow> buckets m \<noteq> 0 \<Longrightarrow> \<not> (len m * 4 \<ge> buckets m * 3)"
  using word64_mult3_eq_0 [of "buckets m"] by auto

lemma null_slots_empty [simp]: "null_slots n n xs = xs"
  by (simp add: null_slots_def)

lemma hashmap_grow_Some:
  "hashmap_grow (Some m) n =
     Some (if buckets m \<ge> n then m
           else m\<lparr>buckets := n, entries := realloc (entries m) (n * 8)\<rparr>)"
  by (simp add: hashmap_grow_def Let_def realloc_def)


lemma hashmap_grow_if_needed_idle:
  "len m = 0 \<Longrightarrow> buckets m \<noteq> 0 \<Longrightarrow> hashmap_grow_if_needed (Some m) = Some m"
  using load_check_false [of m] by (simp add: hashmap_grow_if_needed_def)

lemma hashmap_grow_if_needed_Some:
  "\<exists>g. hashmap_grow_if_needed (Some m) = Some g \<and> len g = len m \<and> key g = key m
       \<and> buckets m \<le> buckets g \<and> buckets g \<noteq> 0"
proof (cases "buckets m = 0")
  case True
  then show ?thesis
    by (simp add: hashmap_grow_if_needed_def hashmap_grow_Some)
next
  case False
  then show ?thesis
    by (auto simp: hashmap_grow_if_needed_def hashmap_grow_Some)
qed

lemma hashmap_grow_if_needed_fields:
  "hashmap_grow_if_needed (Some m) = Some g \<Longrightarrow>
     len g = len m \<and> key g = key m \<and> buckets m \<le> buckets g \<and> buckets g \<noteq> 0"
  using hashmap_grow_if_needed_Some [of m] by auto

lemma first_growth:
  "hashmap_grow_if_needed (Some (hashmap_new rnd)) =
     Some ((hashmap_new rnd)\<lparr>buckets := 8, entries := Some (replicate 8 Uninit)\<rparr>)"
  by (simp add: hashmap_grow_if_needed_def hashmap_grow_def hashmap_new_def realloc_def Let_def)

section \<open>Chain walks\<close>

lemma insert_loop_returns: "\<exists>old c'. insert_loop c (Some s) v = Inr (old, c')"
  by (induction c) auto

lemma get_loop_returns: "\<exists>r. get_loop c (Some s) = Inr r"
  by (induction c) auto

lemma remove_loop_returns: "\<exists>r c'. remove_loop c (Some s) = Inr (r, c')"
  by (induction c) auto

lemma insert_loop_get:
  "insert_loop c (Some s) v = Inr (old, c') \<Longrightarrow> get_loop c' (Some s) = Inr v"
  by (induction c arbitrary: old c') (auto split: if_splits sum.splits)

lemma insert_loop_old:
  "insert_loop c (Some s) v = Inr (old, c') \<Longrightarrow> get_loop c (Some s) = Inr old"
  by (induction c arbitrary: old c') (auto split: if_splits sum.splits)

lemma insert_loop_keys:
  "insert_loop c (Some s) v = Inr (old, c') \<Longrightarrow>
     chain_keys c' = (if s \<in> set (chain_keys c) then chain_keys c else chain_keys c @ [s])"
  by (induction c arbitrary: old c') (auto simp: chain_keys_def split: if_splits sum.splits)

lemma insert_loop_present: 
  "insert_loop c (Some s) v = Inr (old, c') \<Longrightarrow> s \<in> set (chain_keys c')"
  by (auto dest: insert_loop_keys split: if_splits)

lemma insert_loop_distinct:
  "insert_loop c (Some s) v = Inr (old, c') \<Longrightarrow> distinct (chain_keys c) \<Longrightarrow> distinct (chain_keys c')"
  by (auto dest: insert_loop_keys split: if_splits)

lemma remove_loop_get:
  "remove_loop c (Some s) = Inr (r, c') \<Longrightarrow> get_loop c (Some s) = Inr r"
  by (induction c arbitrary: r c') (auto split: if_splits sum.splits)

lemma remove_loop_keys:
  "remove_loop c (Some s) = Inr (r, c') \<Longrightarrow> chain_keys c' = remove1 s (chain_keys c)"
  by (induction c arbitrary: r c') (auto simp: chain_keys_def split: if_splits sum.splits)

lemma insert_loop_null_key: "insert_loop c None v = Inl NullDeref"
  by (cases c) auto

lemma remove_loop_null_key: "remove_loop c None = Inr (r, c') \<Longrightarrow> c = [] \<and> c' = [] \<and> r = NULL"
  by (cases c) auto

lemma remove_loop_distinct:
  "remove_loop c k = Inr (r, c') \<Longrightarrow> distinct (chain_keys c) \<Longrightarrow> distinct (chain_keys c')"
  by (cases k) (auto dest: remove_loop_keys remove_loop_null_key)

lemma insert_loop_distinct_any:
  "insert_loop c k v = Inr (old, c') \<Longrightarrow> distinct (chain_keys c) \<Longrightarrow> distinct (chain_keys c')"
  by (cases k) (auto dest: insert_loop_distinct simp: insert_loop_null_key)

lemma get_loop_absent:
  "s \<notin> set (chain_keys c) \<Longrightarrow> get_loop c (Some s) = Inr NULL"
  by (induction c) (auto simp: chain_keys_def)

lemma remove_loop_absent:
  "s \<notin> set (chain_keys c) \<Longrightarrow> remove_loop c (Some s) = Inr (NULL, c)"
  by (induction c) (auto simp: chain_keys_def)

lemma remove_loop_gone:
  "remove_loop c (Some s) = Inr (r, c') \<Longrightarrow> distinct (chain_keys c) \<Longrightarrow> s \<notin> set (chain_keys c')"
  by (auto dest: remove_loop_keys)

section \<open>Bucket selection\<close>

lemma hashmap_hash_key_secret:
  "key m1 = key m2 \<Longrightarrow> hashmap_hash_key sip (Some m1) (Some s) h1 = hashmap_hash_key sip (Some m2) (Some s) h2"
  by (simp add: hashmap_hash_key_def)

lemma hashmap_hash_key_cong:
  "key m1 = key m2 \<Longrightarrow> hashmap_hash_key sip (Some m1) k h = hashmap_hash_key sip (Some m2) k h"
  by (simp add: hashmap_hash_key_def split: option.splits)

lemma bucket_index_cong:
  "key m1 = key m2 \<Longrightarrow> buckets m1 = buckets m2 \<Longrightarrow> bucket_index sip m1 k = bucket_index sip m2 k"
  by (simp add: bucket_index_def hashmap_hash_key_cong [of m1 m2])

lemma bucket_index_less: "buckets m \<noteq> 0 \<Longrightarrow> bucket_index sip m k < unat (buckets m)"
  by (simp add: bucket_index_def unat_mod_distrib word_neq_0_conv unat_gt_0)

lemma read_bucket_Inr:
  "read_bucket sip m xs k = Inr (b, c) \<longleftrightarrow>
     buckets m \<noteq> 0 \<and> b = bucket_index sip m k \<and> b < length xs \<and> xs ! b = Chain c"
  by (auto simp: read_bucket_def Let_def split: slot.splits)

lemma read_bucket_update:
  assumes "read_bucket sip m xs k = Inr (b, c)"
  shows "read_bucket sip (m\<lparr>entries := e\<rparr>) (xs[b := Chain c']) k = Inr (b, c')"
proof -
  have "bucket_index sip (m\<lparr>entries := e\<rparr>) k = bucket_index sip m k"
    by (rule bucket_index_cong) simp_all
  with assms show ?thesis
    by (simp add: read_bucket_Inr)
qed

section \<open>The three operations\<close>

lemma hashmap_insert_Inr:
  assumes "hashmap_insert sip (Some m) k v = Inr (r, mp')"
  obtains g where "hashmap_grow_if_needed (Some m) = Some g" "entries g = None" "r = NULL" "mp' = Some g"
  | g xs b c c' where "hashmap_grow_if_needed (Some m) = Some g" "entries g = Some xs"
      "read_bucket sip g xs k = Inr (b, c)" "insert_loop c k v = Inr (r, c')"
      "mp' = Some (g\<lparr>entries := Some (xs[b := Chain c'])\<rparr>)"
  using assms
  by (auto simp: hashmap_insert_def split: option.splits sum.splits)

lemma hashmap_insert_Some:
  "hashmap_grow_if_needed (Some m) = Some g \<Longrightarrow> entries g = Some xs \<Longrightarrow> read_bucket sip g xs k = Inr (b, c) \<Longrightarrow>
     hashmap_insert sip (Some m) k v =
       (case insert_loop c k v of Inl f \<Rightarrow> Inl f
        | Inr (old, c') \<Rightarrow> Inr (old, Some (g\<lparr>entries := Some (xs[b := Chain c'])\<rparr>)))"
  by (simp add: hashmap_insert_def)

lemma hashmap_get_Some:
  "entries m = Some xs \<Longrightarrow> read_bucket sip m xs k = Inr (b, c) \<Longrightarrow>
     hashmap_get sip (Some m) k = (case get_loop c k of Inl f \<Rightarrow> Inl f | Inr v \<Rightarrow> Inr (v, Some m))"
  by (simp add: hashmap_get_def)

lemma hashmap_get_state: "hashmap_get sip mp k = Inr (r, mp') \<Longrightarrow> mp' = mp"
  by (auto simp: hashmap_get_def split: option.splits sum.splits)

lemma hashmap_remove_Some:
  "entries m = Some xs \<Longrightarrow> read_bucket sip m xs k = Inr (b, c) \<Longrightarrow>
     hashmap_remove sip (Some m) k =
       (case remove_loop c k of Inl f \<Rightarrow> Inl f
        | Inr (v, c') \<Rightarrow> Inr (v, Some (m\<lparr>entries := Some (xs[b := Chain c'])\<rparr>)))"
  by (simp add: hashmap_remove_def)

lemma hashmap_remove_Inr:
  assumes "hashmap_remove sip (Some m) k = Inr (r, mp')"
  obtains "entries m = None" "r = NULL" "mp' = Some m"
  | xs b c c' where "entries m = Some xs"
      "read_bucket sip m xs k = Inr (b, c)" "remove_loop c k = Inr (r, c')"
      "mp' = Some (m\<lparr>entries := Some (xs[b := Chain c'])\<rparr>)"
  using assms
  by (auto simp: hashmap_remove_def split: option.splits sum.splits)

lemma hashmap_insert_get:
  assumes "hashmap_insert sip (Some t) (Some k) v = Inr (r, Some t')" and "entries t' \<noteq> None"
  shows "hashmap_get sip (Some t') (Some k) = Inr (v, Some t')"
  using assms(1)
proof (cases rule: hashmap_insert_Inr)
  case (1 g)
  with assms(2) show ?thesis by simp
next
  case (2 g xs b c c')
  have "read_bucket sip t' (xs[b := Chain c']) (Some k) = Inr (b, c')"
    using 2 read_bucket_update [of sip g xs "Some k" b c] by simp
  moreover have "entries t' = Some (xs[b := Chain c'])"
    using 2 by simp
  moreover have "get_loop c' (Some k) = Inr v"
    using 2 by (simp add: insert_loop_get)
  ultimately show ?thesis
    by (simp add: hashmap_get_Some)
qed

lemma hashmap_insert_post:
  assumes "hashmap_insert sip (Some t) (Some k) v = Inr (r, Some t1)" and "entries t1 \<noteq> None"
  obtains ys b c1 where "entries t1 = Some ys" "read_bucket sip t1 ys (Some k) = Inr (b, c1)"
    "get_loop c1 (Some k) = Inr v" "k \<in> set (chain_keys c1)" "len t1 = len t"
  using assms(1)
proof (cases rule: hashmap_insert_Inr)
  case (1 g)
  with assms(2) show ?thesis by simp
next
  case (2 g xs b c c')
  have "read_bucket sip t1 (xs[b := Chain c']) (Some k) = Inr (b, c')"
    using 2 read_bucket_update [of sip g xs "Some k" b c] by simp
  moreover have "entries t1 = Some (xs[b := Chain c'])"
    using 2 by simp
  moreover have "get_loop c' (Some k) = Inr v" "k \<in> set (chain_keys c')"
    using 2 by (simp_all add: insert_loop_get insert_loop_present)
  moreover have "len t1 = len t"
    using 2 by (auto dest: hashmap_grow_if_needed_fields)
  ultimately show ?thesis
    using that by blast
qed

lemma exec_fields:
  assumes "exec sip (Some m) x = Inr (r, Some m')"
  shows "len m' = len m \<and> key m' = key m \<and> buckets m \<le> buckets m'"
proof (cases x)
  case (Insert k v)
  with assms have "hashmap_insert sip (Some m) k v = Inr (r, Some m')" by simp
  then show ?thesis
    by (cases rule: hashmap_insert_Inr) (auto dest: hashmap_grow_if_needed_fields)
next
  case (Get k)
  with assms show ?thesis
    by (auto dest: hashmap_get_state)
next
  case (Remove k)
  with assms have "hashmap_remove sip (Some m) k = Inr (r, Some m')" by simp
  then show ?thesis
    by (cases rule: hashmap_remove_Inr) auto
qed




section \<open>The invariant of reachable tables\<close>

lemma null_slots_all_null:
  "set xs \<subseteq> {Chain []} \<Longrightarrow> null_slots i j xs = xs"
proof -
  have upd: "ys[n := Chain []] = ys" if "set ys \<subseteq> {Chain []}" for ys n
  proof (cases "n < length ys")
    case True
    with that have "ys ! n = Chain []" by (metis nth_mem singletonD subsetD)
    then show ?thesis by (metis list_update_id)
  next
    case False
    then show ?thesis by (simp add: list_update_beyond)
  qed
  have "set xs \<subseteq> {Chain []} \<Longrightarrow> fold (\<lambda>i ys. ys[i := Chain []]) ns xs = xs" for ns
    by (induction ns) (simp_all add: upd)
  then show "set xs \<subseteq> {Chain []} \<Longrightarrow> null_slots i j xs = xs"
    by (simp add: null_slots_def)
qed

lemma null_slots_replicate: "null_slots i j (replicate n (Chain [])) = replicate n (Chain [])"
  by (rule null_slots_all_null) auto

lemma hashmap_with_buckets_Inr:
  "hashmap_with_buckets rnd n = Inr m \<Longrightarrow>
     m = (hashmap_new rnd)\<lparr>buckets := n, entries := Some (replicate (unat n) (Chain []))\<rparr>"
  by (auto simp: hashmap_with_buckets_def Let_def null_slots_replicate split: if_splits)

lemma table_inv_new: "table_inv (hashmap_new rnd)"
  by (simp add: table_inv_def hashmap_new_def)

lemma table_inv_with_buckets: "hashmap_with_buckets rnd n = Inr m \<Longrightarrow> table_inv m"
  by (auto dest!: hashmap_with_buckets_Inr simp: table_inv_def hashmap_new_def list_all_iff chain_keys_def)

lemma table_inv_grow_if_needed:
  assumes "table_inv m" and "hashmap_grow_if_needed (Some m) = Some g"
  shows "table_inv g"
proof (cases "buckets m = 0")
  case True
  with assms(1) have old: "(case entries m of None \<Rightarrow> [] | Some xs \<Rightarrow> xs) = []"
    by (auto simp: table_inv_def split: option.splits)
  from True assms(2) have "g = m\<lparr>buckets := 8, entries := realloc (entries m) (8 * 8)\<rparr>"
    by (simp add: hashmap_grow_if_needed_def hashmap_grow_Some)
  moreover have "realloc (entries m) (8 * 8) = Some (replicate 8 Uninit)"
    using old by (simp add: realloc_def Let_def)
  ultimately show ?thesis
    using assms(1) by (simp add: table_inv_def list_all_iff chain_keys_def)
next
  case False
  moreover from assms(1) have "len m = 0"
    by (simp add: table_inv_def)
  ultimately have "hashmap_grow_if_needed (Some m) = Some m"
    by (simp add: hashmap_grow_if_needed_idle)
  with assms(2) have "g = m" by simp
  with assms(1) show ?thesis by simp
qed

lemma table_inv_update:
  assumes "table_inv m" and "entries m = Some xs" and "distinct (chain_keys c')"
  shows "table_inv (m\<lparr>entries := Some (xs[b := Chain c'])\<rparr>)"
proof -
  have "set (xs[b := Chain c']) \<subseteq> insert (Chain c') (set xs)"
    by (rule set_update_subset_insert)
  with assms show ?thesis
    by (auto simp: table_inv_def list_all_iff)
qed

lemma table_inv_chain:
  assumes "table_inv m" and "entries m = Some xs" and "read_bucket sip m xs k = Inr (b, c)"
  shows "distinct (chain_keys c)"
proof -
  from assms(3) have "Chain c \<in> set xs"
    by (metis nth_mem read_bucket_Inr)
  moreover from assms(1,2) have "\<forall>x\<in>set xs. distinct (chain_keys (slot_chain x))"
    by (simp add: table_inv_def list_all_iff)
  ultimately have "distinct (chain_keys (slot_chain (Chain c)))"
    by blast
  then show ?thesis by simp
qed

lemma table_inv_exec:
  assumes "table_inv m" and "exec sip (Some m) x = Inr (r, Some m')"
  shows "table_inv m'"
proof (cases x)
  case (Insert k v)
  with assms have "hashmap_insert sip (Some m) k v = Inr (r, Some m')" by simp
  then show ?thesis
  proof (cases rule: hashmap_insert_Inr)
    case (1 g)
    with assms(1) show ?thesis by (auto dest: table_inv_grow_if_needed)
  next
    case (2 g xs b c c')
    from assms(1) 2(1) have g: "table_inv g" by (rule table_inv_grow_if_needed)
    with 2 have "distinct (chain_keys c)" by (auto dest: table_inv_chain)
    with 2 have "distinct (chain_keys c')" by (auto dest: insert_loop_distinct_any)
    with g 2 show ?thesis by (auto intro: table_inv_update)
  qed
next
  case (Get k)
  with assms show ?thesis by (auto dest: hashmap_get_state)
next
  case (Remove k)
  with assms have "hashmap_remove sip (Some m) k = Inr (r, Some m')" by simp
  then show ?thesis
  proof (cases rule: hashmap_remove_Inr)
    case 1
    with assms(1) show ?thesis by simp
  next
    case (2 xs b c c')
    with assms(1) have "distinct (chain_keys c)" by (auto dest: table_inv_chain)
    with 2 have "distinct (chain_keys c')" by (auto dest: remove_loop_distinct)
    with assms(1) 2 show ?thesis by (auto intro: table_inv_update)
  qed
qed

lemma reachable_inv: "reachable sip m \<Longrightarrow> table_inv m"
  by (induction rule: reachable.induct) (auto intro: table_inv_new table_inv_with_buckets table_inv_exec)

lemma reachable_len: "reachable sip t \<Longrightarrow> len t = 0"
  by (auto dest: reachable_inv simp: table_inv_def)

lemma reachable_insert:
  "reachable sip t \<Longrightarrow> hashmap_insert sip (Some t) k v = Inr (r, Some t') \<Longrightarrow> reachable sip t'"
  using reachable_exec [of sip t "Insert k v" r t'] by simp

lemma node_count_zero:
  assumes "table_inv m" and "buckets m = 0"
  shows "len m = 0 \<and> node_count m = 0"
  using assms by (auto simp: table_inv_def node_count_def nodes_def split: option.splits)

section \<open>Readable tables\<close>

text \<open>
  A table built by \<open>hashmap_with_buckets\<close> with a non-zero count is readable and stays so;
  on such a table the operations with a non-null key return.
\<close>

lemma readable_new: "readable (hashmap_new rnd)"
  by (simp add: readable_def hashmap_new_def)

lemma readable_with_buckets:
  "hashmap_with_buckets rnd n = Inr m \<Longrightarrow> n \<noteq> 0 \<Longrightarrow> readable m"
  by (auto dest!: hashmap_with_buckets_Inr simp: readable_def list_all_iff)

lemma readable_update:
  assumes "readable m" and "entries m = Some xs"
  shows "readable (m\<lparr>entries := Some (xs[b := Chain c'])\<rparr>)"
proof -
  have "set (xs[b := Chain c']) \<subseteq> insert (Chain c') (set xs)"
    by (rule set_update_subset_insert)
  with assms show ?thesis
    by (auto simp: readable_def list_all_iff)
qed

lemma readable_exec:
  assumes "readable m" and "len m = 0" and "buckets m \<noteq> 0"
    and "exec sip (Some m) x = Inr (r, Some m')"
  shows "readable m'"
proof (cases x)
  case (Insert k v)
  with assms(4) have "hashmap_insert sip (Some m) k v = Inr (r, Some m')" by simp
  then show ?thesis
    using assms(1-3)
    by (cases rule: hashmap_insert_Inr) (auto simp: hashmap_grow_if_needed_idle intro: readable_update)
next
  case (Get k)
  with assms(1,4) show ?thesis by (auto dest: hashmap_get_state)
next
  case (Remove k)
  with assms(4) have "hashmap_remove sip (Some m) k = Inr (r, Some m')" by simp
  then show ?thesis
    using assms(1) by (cases rule: hashmap_remove_Inr) (auto intro: readable_update)
qed

lemma readable_read_bucket:
  assumes "readable t" and "entries t = Some xs"
  obtains b c where "read_bucket sip t xs k = Inr (b, c)"
proof -
  from assms have nz: "buckets t \<noteq> 0" and le: "unat (buckets t) \<le> length xs"
    and init: "\<forall>x\<in>set xs. x \<noteq> Uninit"
    by (simp_all add: readable_def list_all_iff)
  let ?b = "bucket_index sip t k"
  from nz le have lt: "?b < length xs"
    using bucket_index_less [of t sip k] by simp
  with init have "xs ! ?b \<noteq> Uninit" by (metis nth_mem)
  then obtain c where "xs ! ?b = Chain c" by (cases "xs ! ?b") auto
  with nz lt have "read_bucket sip t xs k = Inr (?b, c)"
    by (simp add: read_bucket_Inr)
  then show ?thesis by (rule that)
qed

lemma hashmap_insert_returns:
  assumes "readable m" and "len m = 0" and "entries m = Some xs"
  shows "\<exists>r m'. hashmap_insert sip (Some m) (Some k) v = Inr (r, Some m') \<and> entries m' \<noteq> None"
proof -
  from assms(1,3) have "buckets m \<noteq> 0"
    by (simp add: readable_def)
  with assms(2) have idle: "hashmap_grow_if_needed (Some m) = Some m"
    by (rule hashmap_grow_if_needed_idle)
  from assms(1,3) obtain b c where "read_bucket sip m xs (Some k) = Inr (b, c)"
    by (rule readable_read_bucket)
  moreover obtain old c' where "insert_loop c (Some k) v = Inr (old, c')"
    using insert_loop_returns by blast
  ultimately show ?thesis
    using idle assms(3) by (simp add: hashmap_insert_Some)
qed

lemma hashmap_get_returns:
  assumes "readable m"
  shows "\<exists>r. hashmap_get sip (Some m) (Some k) = Inr (r, Some m)"
proof (cases "entries m")
  case None
  then show ?thesis by (simp add: hashmap_get_def)
next
  case (Some xs)
  with assms obtain b c where "read_bucket sip m xs (Some k) = Inr (b, c)"
    by (rule readable_read_bucket)
  moreover obtain r where "get_loop c (Some k) = Inr r"
    using get_loop_returns by blast
  ultimately show ?thesis
    using Some by (simp add: hashmap_get_Some)
qed

section \<open>Layout, removal\<close>

lemma key_layout_update:
  assumes "entries m = Some xs" and "b < length xs" and "xs ! b = Chain c" and "chain_keys c' = chain_keys c"
  shows "key_layout (m\<lparr>entries := Some (xs[b := Chain c'])\<rparr>) = key_layout m"
proof -
  have "map slot_keys (xs[b := Chain c']) = (map slot_keys xs)[b := slot_keys (xs ! b)]"
    using assms(3,4) by (simp add: map_update)
  also have "\<dots> = map slot_keys xs"
    using assms(2) by (metis list_update_id nth_map)
  finally show ?thesis
    using assms(1) by (simp add: key_layout_def)
qed

lemma chain_keys_nodes:
  assumes "entries t = Some xs" and "b < length xs" and "xs ! b = Chain c"
  shows "set (chain_keys c) \<subseteq> set (stored_keys t)"
proof -
  have "Chain c \<in> set xs" using assms(2,3) by (metis nth_mem)
  then have "set c \<subseteq> set (concat (map slot_chain xs))"
    by force
  with assms(1) show ?thesis
    by (auto simp: stored_keys_def nodes_def chain_keys_def)
qed

lemma remove_after_insert:
  assumes reach: "reachable sip t"
    and ins: "hashmap_insert sip (Some t) (Some k) v = Inr (r, Some t1)"
    and arr: "entries t1 \<noteq> None"
  shows "\<exists>t2. hashmap_remove sip (Some t1) (Some k) = Inr (v, Some t2) \<and>
            hashmap_get sip (Some t2) (Some k) = Inr (NULL, Some t2)"
proof -
  from ins arr obtain ys b c1 where t1: "entries t1 = Some ys"
      "read_bucket sip t1 ys (Some k) = Inr (b, c1)" "get_loop c1 (Some k) = Inr v"
    by (rule hashmap_insert_post)
  from reach ins have "table_inv t1"
    by (auto dest: reachable_insert reachable_inv)
  with t1 have dist: "distinct (chain_keys c1)"
    by (auto dest: table_inv_chain)
  obtain r2 c2 where c2: "remove_loop c1 (Some k) = Inr (r2, c2)"
    using remove_loop_returns by blast
  with t1(3) have r2: "r2 = v"
    by (auto dest: remove_loop_get)
  let ?t2 = "t1\<lparr>entries := Some (ys[b := Chain c2])\<rparr>"
  have rem: "hashmap_remove sip (Some t1) (Some k) = Inr (v, Some ?t2)"
    using t1(1,2) c2 r2 by (simp add: hashmap_remove_Some)
  have "k \<notin> set (chain_keys c2)"
    using c2 dist by (rule remove_loop_gone)
  then have "get_loop c2 (Some k) = Inr NULL"
    by (rule get_loop_absent)
  moreover have "read_bucket sip ?t2 (ys[b := Chain c2]) (Some k) = Inr (b, c2)"
    using t1(2) by (rule read_bucket_update)
  ultimately have "hashmap_get sip (Some ?t2) (Some k) = Inr (NULL, Some ?t2)"
    by (simp add: hashmap_get_Some)
  with rem show ?thesis
    by blast
qed

lemma remove_absent:
  assumes rd: "readable u" and absent: "k \<notin> set (stored_keys u)"
  shows "hashmap_remove sip (Some u) (Some k) = Inr (NULL, Some u) \<and>
      hashmap_get sip (Some u) (Some k) = Inr (NULL, Some u)"
proof (cases "entries u")
  case None
  then show ?thesis
    by (simp add: hashmap_remove_def hashmap_get_def)
next
  case (Some xs)
  with rd obtain b c where rb: "read_bucket sip u xs (Some k) = Inr (b, c)"
    by (rule readable_read_bucket)
  then have slot: "b < length xs" "xs ! b = Chain c"
    by (auto simp: read_bucket_Inr)
  with Some absent have "k \<notin> set (chain_keys c)"
    using chain_keys_nodes [of u xs b c] by auto
  then have "remove_loop c (Some k) = Inr (NULL, c)" "get_loop c (Some k) = Inr NULL"
    by (simp_all add: remove_loop_absent get_loop_absent)
  moreover have "xs[b := Chain c] = xs"
    using slot by (metis list_update_id)
  moreover have "u\<lparr>entries := Some xs\<rparr> = u"
    using Some by simp
  ultimately show ?thesis
    using Some rb by (simp add: hashmap_remove_Some hashmap_get_Some)
qed

section \<open>Evaluating the examples\<close>

lemmas example_defs =
  hashmap_insert_def hashmap_get_def hashmap_remove_def hashmap_grow_if_needed_def
  hashmap_new_def read_bucket_def bucket_index_def

lemma example_with_buckets: "hashmap_with_buckets (\<lambda>i. 0) 1 = Inr table1"
  by (simp add: hashmap_with_buckets_def null_slots_def)

lemma example_with_buckets8: "hashmap_with_buckets (\<lambda>i. 0) 8 = Inr table8"
  by (simp add: hashmap_with_buckets_def null_slots_replicate)

lemma example_insert:
  "hashmap_insert sip0 (Some table1) (Some ''key1'') 5 = Inr (NULL, Some table1a)"
  by (simp add: example_defs)

lemma example_reachable: "reachable sip0 table1"
  using example_with_buckets by (rule reachable_with_buckets)

lemma example_get:
  "hashmap_get sip0 (Some table1a) (Some ''key1'') = Inr (5, Some table1a)"
  "hashmap_get sip0 (Some table1b) (Some ''key1'') = Inr (6, Some table1b)"
  "hashmap_get sip0 (Some table1) (Some ''key1'') = Inr (NULL, Some table1)"
  by (simp_all add: example_defs)

lemma example_readable: "readable table1" "''key1'' \<notin> set (stored_keys table1)"
  by (simp_all add: readable_def hashmap_new_def stored_keys_def nodes_def chain_keys_def)

lemma sip0_hash: "hashmap_hash_key sip0 (Some m) k 0 = 0"
proof -
  have "fold (\<lambda>i h. h) ns (a :: 64 word) = a" for ns :: "nat list" and a
    by (induction ns) simp_all
  then show ?thesis
    by (simp add: hashmap_hash_key_def hash_bytes_at_def split: option.splits)
qed


lemma example_run8:
  "run sip0 (Some table8) [Insert (Some ''key1'') 5, Get (Some ''key1'')] = Inr ([NULL, 5], Some table8a)"
  by (simp add: example_defs sip0_hash)

text \<open>
  The calls of the demonstration program \<open>main.c\<close>, followed by a last lookup of "key1",
  on the one-bucket table: the returned pointers are null, the first value, the first value,
  the second value, null, the third value, the second value, null.
\<close>

lemma example_main:
  "run sip0 (Some table1)
     [Insert (Some ''key1'') 5, Get (Some ''key1''), Insert (Some ''key1'') 6, Get (Some ''key1''),
      Insert (Some ''key2'') 7, Get (Some ''key2''), Remove (Some ''key1''), Get (Some ''key1'')]
   = Inr ([NULL, 5, 5, 6, NULL, 7, 6, NULL],
          Some (table1\<lparr>entries := Some [Chain [\<lparr>entry_key = ''key2'', entry_value = 7\<rparr>]]\<rparr>))"
  by (simp add: example_defs)

section \<open>The claims\<close>

subsection \<open>C1: size after inserts\<close>

text \<open>
  C1. The claim: after any sequence of inserts with pairwise distinct keys into a freshly
  created table, \<open>hashmap_len\<close> returns the number of keys inserted. The code: no
  operation writes \<open>map->len\<close>. On the table \<open>hashmap_with_buckets(1)\<close> the inserts of
  "key1" and "key2" both return null and leave two nodes, and the counter that
  \<open>hashmap_len\<close> reports is still 0.
\<close>

theorem hashmap_len_ignores_inserts:
  "hashmap_with_buckets (\<lambda>i. 0) 1 = Inr table1 \<and>
   run sip0 (Some table1) [Insert (Some ''key1'') 5, Insert (Some ''key2'') 6]
     = Inr ([NULL, NULL], Some table1c) \<and>
   stored_keys table1c = [''key1'', ''key2''] \<and>
   hashmap_len table1c = 0"
  by (simp add: example_defs hashmap_with_buckets_def null_slots_def hashmap_len_def
      stored_keys_def nodes_def chain_keys_def)

subsection \<open>C2: growth initialises the new slots\<close>

text \<open>
  C2. The claim: whenever the bucket storage grows, every previously unused slot is
  initialised to the empty chain and the existing entries stay in their slots. The code
  at the first growth of a table made by \<open>hashmap_new\<close>: \<open>map->buckets\<close> already holds
  the new count when the initialising loop starts, so the loop body never runs and all 8
  slots of the new array are left as \<open>realloc\<close> returned them, not as empty chains; the
  insert that triggered the growth then reads such a slot.
\<close>

theorem hashmap_grow_leaves_slots_unwritten:
  "entries (hashmap_new (\<lambda>i. 0)) = None \<and>
   hashmap_grow_if_needed (Some (hashmap_new (\<lambda>i. 0))) =
     Some ((hashmap_new (\<lambda>i. 0))\<lparr>buckets := 8, entries := Some (replicate 8 Uninit)\<rparr>) \<and>
   replicate 8 Uninit \<noteq> replicate 8 (Chain []) \<and>
   hashmap_insert sip0 (Some (hashmap_new (\<lambda>i. 0))) (Some ''key1'') 5 = Inl UninitRead"
  by (simp add: first_growth hashmap_insert_def read_bucket_def sip0_hash bucket_index_def)
    (simp add: hashmap_new_def)

subsection \<open>C3: null handle and null key\<close>

text \<open>
  C3. The claim: insert, get and remove with a null table handle or a null key are no-ops
  that return the null result and never crash. The code: \<open>hashmap_insert\<close> with a null
  handle dereferences it at \<open>map->entries\<close>; with a null key, \<open>hashmap_insert\<close> passes it
  to \<open>strdup\<close>, and \<open>hashmap_get\<close> and \<open>hashmap_remove\<close> pass it to \<open>strcmp\<close> as soon
  as the chain of bucket 0 has a node.
\<close>

theorem null_arguments_fault:
  "hashmap_insert sip0 None (Some ''key1'') 5 = Inl NullDeref \<and>
   hashmap_insert sip0 (Some table1) None 5 = Inl NullDeref \<and>
   hashmap_get sip0 (Some table1a) None = Inl NullDeref \<and>
   hashmap_remove sip0 (Some table1a) None = Inl NullDeref"
  by (simp add: example_defs)

subsection \<open>C4: insert, then get\<close>

text \<open>
  C4. For every table \<open>t\<close>, key \<open>k\<close> and value \<open>v\<close>: once \<open>hashmap_insert(t, k, v)\<close> has
  succeeded, that is, it returned and the table has a bucket array, \<open>hashmap_get(t, k)\<close>
  returns the very pointer \<open>v\<close>.
\<close>

theorem insert_then_get:
  assumes "hashmap_insert sip (Some t) (Some k) v = Inr (r, Some t')" and "entries t' \<noteq> None"
  shows "hashmap_get sip (Some t') (Some k) = Inr (v, Some t')"
  using assms by (rule hashmap_insert_get)

theorem insert_then_get_witness:
  "hashmap_insert sip0 (Some table1) (Some ''key1'') 5 = Inr (NULL, Some table1a) \<and>
   entries table1a \<noteq> None \<and>
   hashmap_get sip0 (Some table1a) (Some ''key1'') = Inr (5, Some table1a)"
  using insert_then_get [of sip0 table1 "''key1''" 5 0 table1a] example_insert by simp

subsection \<open>C5: inserting a present key replaces its value\<close>

text \<open>
  C5. For every reachable table \<open>t\<close>, key \<open>k\<close> and values \<open>v1\<close>, \<open>v2\<close>: after a
  successful \<open>hashmap_insert(t, k, v1)\<close>, a second \<open>hashmap_insert(t, k, v2)\<close> returns
  \<open>v1\<close> and \<open>hashmap_get(t, k)\<close> then returns \<open>v2\<close>; the second insert leaves the node
  layout as it was: the same slots hold the same nodes with the same key copies, so no
  second node for \<open>k\<close> exists and the stored key is untouched.
\<close>

theorem reinsert_replaces:
  assumes "reachable sip t"
    and "hashmap_insert sip (Some t) (Some k) v1 = Inr (r, Some t1)"
    and "entries t1 \<noteq> None"
  shows "\<exists>t2. hashmap_insert sip (Some t1) (Some k) v2 = Inr (v1, Some t2) \<and>
              hashmap_get sip (Some t2) (Some k) = Inr (v2, Some t2) \<and>
              key_layout t2 = key_layout t1"
proof -
  from assms(2,3) obtain ys b c1 where t1: "entries t1 = Some ys"
      "read_bucket sip t1 ys (Some k) = Inr (b, c1)" "get_loop c1 (Some k) = Inr v1"
      "k \<in> set (chain_keys c1)" "len t1 = len t"
    by (rule hashmap_insert_post)
  from assms(1) have "len t = 0"
    by (rule reachable_len)
  with t1 have idle: "hashmap_grow_if_needed (Some t1) = Some t1"
    by (simp add: hashmap_grow_if_needed_idle read_bucket_Inr)
  obtain old c2 where c2: "insert_loop c1 (Some k) v2 = Inr (old, c2)"
    using insert_loop_returns by blast
  with t1(3) have old: "old = v1"
    by (auto dest: insert_loop_old)
  let ?t2 = "t1\<lparr>entries := Some (ys[b := Chain c2])\<rparr>"
  have ins: "hashmap_insert sip (Some t1) (Some k) v2 = Inr (v1, Some ?t2)"
    using idle t1(1,2) c2 old by (simp add: hashmap_insert_Some)
  have "hashmap_get sip (Some ?t2) (Some k) = Inr (v2, Some ?t2)"
    using ins by (rule hashmap_insert_get) simp
  moreover have "chain_keys c2 = chain_keys c1"
    using c2 t1(4) by (auto dest: insert_loop_keys)
  then have "key_layout ?t2 = key_layout t1"
    using t1(1,2) by (intro key_layout_update) (auto simp: read_bucket_Inr)
  ultimately show ?thesis
    using ins by blast
qed

theorem reinsert_replaces_witness:
  "reachable sip0 table1 \<and>
   hashmap_insert sip0 (Some table1) (Some ''key1'') 5 = Inr (NULL, Some table1a) \<and>
   entries table1a \<noteq> None \<and>
   (\<exists>t2. hashmap_insert sip0 (Some table1a) (Some ''key1'') 6 = Inr (5, Some t2) \<and>
         hashmap_get sip0 (Some t2) (Some ''key1'') = Inr (6, Some t2) \<and>
         key_layout t2 = key_layout table1a)"
  using reinsert_replaces [of sip0 table1 "''key1''" 5 0 table1a 6] example_insert example_reachable
  by simp

subsection \<open>C6: insert, then remove; removing an absent key\<close>

text \<open>
  C6. For every reachable table \<open>t\<close>, key \<open>k\<close> and value \<open>v\<close>: after a successful
  \<open>hashmap_insert(t, k, v)\<close>, \<open>hashmap_remove(t, k)\<close> returns \<open>v\<close> and
  \<open>hashmap_get(t, k)\<close> then returns null. And for every readable table \<open>u\<close> that stores
  no node with key \<open>k\<close>, \<open>hashmap_remove(u, k)\<close> returns null and the table after the call
  is \<open>u\<close> itself, every field and every chain, so its size is unchanged too.
\<close>

theorem remove_round_trip:
  "(reachable sip t \<and> hashmap_insert sip (Some t) (Some k) v = Inr (r, Some t1) \<and> entries t1 \<noteq> None \<longrightarrow>
      (\<exists>t2. hashmap_remove sip (Some t1) (Some k) = Inr (v, Some t2) \<and>
            hashmap_get sip (Some t2) (Some k) = Inr (NULL, Some t2))) \<and>
   (readable u \<and> k \<notin> set (stored_keys u) \<longrightarrow>
      hashmap_remove sip (Some u) (Some k) = Inr (NULL, Some u))"
  using remove_after_insert [of sip t k v r t1] remove_absent [of u k sip] by blast

theorem remove_round_trip_witness:
  "(reachable sip0 table1 \<and>
    hashmap_insert sip0 (Some table1) (Some ''key1'') 5 = Inr (NULL, Some table1a) \<and>
    entries table1a \<noteq> None \<and>
    (\<exists>t2. hashmap_remove sip0 (Some table1a) (Some ''key1'') = Inr (5, Some t2) \<and>
          hashmap_get sip0 (Some t2) (Some ''key1'') = Inr (NULL, Some t2))) \<and>
   (readable table1 \<and> ''key1'' \<notin> set (stored_keys table1) \<and>
    hashmap_remove sip0 (Some table1) (Some ''key1'') = Inr (NULL, Some table1))"
  using remove_round_trip [of sip0 table1 "''key1''" 5 0 table1a table1]
    example_insert example_reachable example_readable
  by simp

subsection \<open>C7: the counter stays 0\<close>



subsection \<open>C8: get is a pure read\<close>

text \<open>
  C8. For every table handle and key, when \<open>hashmap_get\<close> returns, the table behind the
  handle is exactly the table before the call: \<open>len\<close>, \<open>buckets\<close>, the secret and every
  chain are unchanged, and no growth took place.
\<close>

theorem hashmap_get_pure: "hashmap_get sip mp k = Inr (r, mp') \<Longrightarrow> mp' = mp"
  by (rule hashmap_get_state)

theorem hashmap_get_pure_witness:
  "hashmap_get sip0 (Some table1a) (Some ''key1'') = Inr (5, Some table1a) \<and> Some table1a = Some table1a"
  using hashmap_get_pure [of sip0 "Some table1a" "Some ''key1''" 5 "Some table1a"] example_get(1)
  by simp

subsection \<open>C9: the bucket count never shrinks\<close>

text \<open>
  C9. For every reachable table: if its bucket count is 0 then its counter is 0 and it has
  no node; the growth check never lowers the bucket count; and after every operation that
  returns, the bucket count is at least what it was before, and the same relation between
  a zero bucket count and an empty table holds again.
\<close>

theorem buckets_never_shrink:
  assumes "reachable sip m"
  shows "(buckets m = 0 \<longrightarrow> len m = 0 \<and> node_count m = 0) \<and>
         (\<forall>g. hashmap_grow_if_needed (Some m) = Some g \<longrightarrow> buckets m \<le> buckets g) \<and>
         (\<forall>x r m'. exec sip (Some m) x = Inr (r, Some m') \<longrightarrow>
            buckets m \<le> buckets m' \<and> (buckets m' = 0 \<longrightarrow> len m' = 0 \<and> node_count m' = 0))"
proof (intro conjI allI impI)
  from assms have inv: "table_inv m" by (rule reachable_inv)
  show "len m = 0" "node_count m = 0" if "buckets m = 0"
    using inv that by (simp_all add: node_count_zero)
  show "buckets m \<le> buckets g" if "hashmap_grow_if_needed (Some m) = Some g" for g
    using that by (simp add: hashmap_grow_if_needed_fields)
  fix x r m'
  assume ex: "exec sip (Some m) x = Inr (r, Some m')"
  then show "buckets m \<le> buckets m'"
    by (simp add: exec_fields)
  from inv ex have "table_inv m'" by (rule table_inv_exec)
  then show "len m' = 0" "node_count m' = 0" if "buckets m' = 0"
    using that by (simp_all add: node_count_zero)
qed

theorem buckets_never_shrink_witness:
  "reachable sip0 table1 \<and>
   exec sip0 (Some table1) (Insert (Some ''key1'') 5) = Inr (NULL, Some table1a) \<and>
   buckets table1 \<le> buckets table1a \<and>
   reachable sip0 (hashmap_new (\<lambda>i. 0)) \<and> buckets (hashmap_new (\<lambda>i. 0)) = 0 \<and>
   len (hashmap_new (\<lambda>i. 0)) = 0 \<and> node_count (hashmap_new (\<lambda>i. 0)) = 0"
  using buckets_never_shrink [of sip0 table1] buckets_never_shrink [of sip0 "hashmap_new (\<lambda>i. 0)"]
    example_reachable example_insert reachable_new [of sip0 "\<lambda>i. 0"]
  by (simp add: hashmap_new_def)

subsection \<open>C10: determinism\<close>

text \<open>
  C10. The claim: for a fixed secret and a fixed sequence of insert, get and remove calls,
  two runs give the same observable state, that is the same result of \<open>hashmap_get\<close> for
  every key. The code: on a table made by \<open>hashmap_new\<close> the first insert grows the array
  to 8 slots, writes none of them, and then reads the slot of its key, so what the insert
  and every later lookup return hangs on what \<open>realloc\<close> left in that memory, which
  neither the secret nor the calls fix. With the same secret and the same two calls, the
  table whose slots \<open>calloc\<close> has written (\<open>hashmap_with_buckets(8)\<close>) returns null and
  then the inserted value, while the run on the \<open>hashmap_new\<close> table stops at the read of
  a slot that was never written. The digest itself does depend only on key and secret
  (\<open>hashmap_hash_key_secret\<close>).
\<close>

theorem fresh_table_run_reads_unwritten_slot:
  "key (hashmap_new (\<lambda>i. 0)) = key table8 \<and>
   hashmap_with_buckets (\<lambda>i. 0) 8 = Inr table8 \<and>
   run sip0 (Some table8) [Insert (Some ''key1'') 5, Get (Some ''key1'')]
     = Inr ([NULL, 5], Some table8a) \<and>
   hashmap_grow_if_needed (Some (hashmap_new (\<lambda>i. 0))) =
     Some ((hashmap_new (\<lambda>i. 0))\<lparr>buckets := 8, entries := Some (replicate 8 Uninit)\<rparr>) \<and>
   run sip0 (Some (hashmap_new (\<lambda>i. 0))) [Insert (Some ''key1'') 5, Get (Some ''key1'')]
     = Inl UninitRead"
proof (intro conjI)
  show "key (hashmap_new (\<lambda>i. 0)) = key table8"
    by simp
  show "hashmap_with_buckets (\<lambda>i. 0) 8 = Inr table8"
    by (rule example_with_buckets8)
  show "run sip0 (Some table8) [Insert (Some ''key1'') 5, Get (Some ''key1'')]
     = Inr ([NULL, 5], Some table8a)"
    by (rule example_run8)
  show "hashmap_grow_if_needed (Some (hashmap_new (\<lambda>i. 0))) =
     Some ((hashmap_new (\<lambda>i. 0))\<lparr>buckets := 8, entries := Some (replicate 8 Uninit)\<rparr>)"
    by (rule first_growth)
  have "hashmap_insert sip0 (Some (hashmap_new (\<lambda>i. 0))) (Some ''key1'') 5 = Inl UninitRead"
    by (simp add: first_growth hashmap_insert_def read_bucket_def sip0_hash bucket_index_def)
  then show "run sip0 (Some (hashmap_new (\<lambda>i. 0))) [Insert (Some ''key1'') 5, Get (Some ''key1'')]
     = Inl UninitRead"
    by simp
qed

end
